theory Spec2Isabelle
  imports Main
begin

section \<open>Data model of the response-error interceptor\<close>

text \<open>
  The module \<^verbatim>\<open>response-error-interceptor.ts\<close> keeps two module-level variables,
  \<^verbatim>\<open>isRefreshing\<close> and \<^verbatim>\<open>refreshSubscribers\<close>, and exports one async function,
  \<^verbatim>\<open>responseErrorInterceptor\<close>, which \<^verbatim>\<open>index.ts\<close> installs as the rejection handler of
  the response interceptor of the shared client \<^verbatim>\<open>SquareAxios\<close>. Every call made through
  \<^verbatim>\<open>SquareAxios\<close> (the application's calls, the replays and the refresh POST itself) has
  its failure handled by this function.

  Promises and request descriptors are objects with identity. A promise is named by an
  identifier: \<open>Caller n\<close> for the promise of a call the application made, \<open>RefreshCall k\<close>
  for the promise of the \<open>k\<close>-th call \<^verbatim>\<open>SquareAxios.post(API_PATHS.AUTH.REFRESH)\<close>. A
  request descriptor is named by a reference into a store of descriptors, because line 28
  mutates the descriptor that the error object points to. Every reference denotes a
  descriptor; the descriptor of a call (also of the refresh call, which the client builds
  inside \<^verbatim>\<open>post\<close>) is the one its error names.
\<close>

datatype promise_id = Caller nat | RefreshCall nat

type_synonym config_ref = nat

text \<open>
  \<^verbatim>\<open>AxiosRequestConfig & { _retry?: boolean }\<close>: the interceptor reads and writes the
  field \<^verbatim>\<open>_retry\<close> only; \<open>None\<close> is \<^verbatim>\<open>undefined\<close>.
\<close>

record AxiosRequestConfig =
  retry :: "bool option"

text \<open>
  \<^verbatim>\<open>AxiosError\<close>, as far as the interceptor inspects it: \<open>is_cancel\<close> is the answer of
  \<^verbatim>\<open>axios.isCancel(error)\<close>, \<open>status\<close> is \<^verbatim>\<open>error.response?.status\<close> (\<open>None\<close> when there
  is no response) and \<open>config\<close> is \<^verbatim>\<open>error.config\<close> (\<open>None\<close> when it is undefined).
\<close>

record AxiosError =
  is_cancel :: bool
  status :: "nat option"
  config :: "config_ref option"

datatype result = Null | Response nat

text \<open>
  What the module does to the outside, in the order in which it does it:
  \<^item> \<open>PostRefresh r\<close>: \<^verbatim>\<open>SquareAxios.post(API_PATHS.AUTH.REFRESH)\<close> was called, its promise is \<open>r\<close>;
  \<^item> \<open>Request p c\<close>: \<^verbatim>\<open>SquareAxios(originalRequest)\<close> was called with the descriptor \<open>c\<close>, and
    the promise \<open>p\<close> was resolved with the promise of that call, so \<open>p\<close> settles as that call does;
  \<^item> \<open>Navigate u\<close>: \<^verbatim>\<open>window.location.href = u\<close>;
  \<^item> \<open>Resolved p v\<close> and \<open>Rejected p e\<close>: the promise \<open>p\<close> was fulfilled with \<open>v\<close>, rejected with \<open>e\<close>.
\<close>

datatype effect =
    PostRefresh promise_id
  | Request promise_id config_ref
  | Navigate string
  | Resolved promise_id result
  | Rejected promise_id AxiosError

text \<open>
  The closure of lines 32 to 38 captures \<^verbatim>\<open>error\<close>, \<^verbatim>\<open>originalRequest\<close> and the
  \<^verbatim>\<open>resolve\<close>/\<^verbatim>\<open>reject\<close> pair of the promise created on line 31.
\<close>

record waiter =
  w_error :: AxiosError
  w_originalRequest :: config_ref
  w_promise :: promise_id

text \<open>
  An invocation suspended at the \<^verbatim>\<open>await\<close> of line 45: its own promise, its
  \<^verbatim>\<open>originalRequest\<close> and the promise it awaits.
\<close>

record frame =
  f_promise :: promise_id
  f_originalRequest :: config_ref
  f_awaits :: promise_id

text \<open>
  The state: the two variables of the module (lines 5 and 6), the store of descriptors,
  and what the runtime holds around them: the invocations suspended at line 45, the number
  of refresh calls made so far (it names the promise of the next one), whether
  \<^verbatim>\<open>window\<close> is defined, and the effects so far, oldest first.
\<close>

record state =
  isRefreshing :: bool
  refreshSubscribers :: "waiter list"
  configs :: "config_ref \<Rightarrow> AxiosRequestConfig"
  suspended :: "frame list"
  refreshCalls :: nat
  window_defined :: bool
  trace :: "effect list"

text \<open>
  The state when the module has been loaded (lines 5 and 6), for a given store of
  descriptors and a given answer to \<^verbatim>\<open>typeof window !== "undefined"\<close>.
\<close>

definition initial :: "(config_ref \<Rightarrow> AxiosRequestConfig) \<Rightarrow> bool \<Rightarrow> state" where
  "initial cfgs w =
     \<lparr>isRefreshing = False, refreshSubscribers = [], configs = cfgs, suspended = [],
      refreshCalls = 0, window_defined = w, trace = []\<rparr>"

section \<open>The functions of the module\<close>

definition emit :: "effect \<Rightarrow> state \<Rightarrow> state" where
  "emit e s = s\<lparr>trace := trace s @ [e]\<rparr>"

text \<open>The callback of lines 32 to 38, called with \<^verbatim>\<open>ok\<close>.\<close>

definition callback :: "waiter \<Rightarrow> bool \<Rightarrow> state \<Rightarrow> state" where
  "callback w ok s =
     (if \<not> ok then emit (Rejected (w_promise w) (w_error w)) s
      else emit (Request (w_promise w) (w_originalRequest w)) s)"

text \<open>Lines 8 to 13. No callback touches \<^verbatim>\<open>refreshSubscribers\<close>, so the loop runs over the list as it was.\<close>

definition onRefreshed :: "bool \<Rightarrow> state \<Rightarrow> state" where
  "onRefreshed ok s =
     (fold (\<lambda>w. callback w ok) (refreshSubscribers s) s)\<lparr>refreshSubscribers := []\<rparr>"

text \<open>Lines 15 to 17.\<close>

definition subscribeRefresh :: "waiter \<Rightarrow> state \<Rightarrow> state" where
  "subscribeRefresh w s = s\<lparr>refreshSubscribers := refreshSubscribers s @ [w]\<rparr>"

text \<open>\<^verbatim>\<open>originalRequest._retry\<close> is truthy.\<close>

definition retried :: "state \<Rightarrow> config_ref \<Rightarrow> bool" where
  "retried s c = (retry (configs s c) = Some True)"

text \<open>\<^verbatim>\<open>originalRequest._retry = true\<close> (line 28).\<close>

definition mark_retried :: "config_ref \<Rightarrow> state \<Rightarrow> state" where
  "mark_retried c s = s\<lparr>configs := (configs s)(c := (configs s c)\<lparr>retry := Some True\<rparr>)\<rparr>"

text \<open>
  Lines 19 to 45 and line 63: the invocation with promise \<open>p\<close>, from its start to its first
  suspension or to its return. The test of line 27 is the second \<open>if\<close>.
\<close>

definition responseErrorInterceptor :: "promise_id \<Rightarrow> AxiosError \<Rightarrow> state \<Rightarrow> state" where
  "responseErrorInterceptor p error s =
     (if is_cancel error then emit (Resolved p Null) s
      else if status error = Some 401 \<and> config error \<noteq> None \<and> \<not> retried s (the (config error)) then
        (let originalRequest = the (config error);
             s1 = mark_retried originalRequest s
         in if isRefreshing s1 then
              subscribeRefresh
                \<lparr>w_error = error, w_originalRequest = originalRequest, w_promise = p\<rparr> s1
            else
              (let r = RefreshCall (refreshCalls s1)
               in emit (PostRefresh r)
                    (s1\<lparr>isRefreshing := True,
                        refreshCalls := Suc (refreshCalls s1),
                        suspended := suspended s1 @
                          [\<lparr>f_promise = p, f_originalRequest = originalRequest, f_awaits = r\<rparr>]\<rparr>)))
      else emit (Rejected p error) s)"

text \<open>Lines 47 to 50: the invocation resumes after the awaited refresh call was fulfilled.\<close>

definition refresh_fulfilled :: "frame \<Rightarrow> state \<Rightarrow> state" where
  "refresh_fulfilled f s =
     emit (Request (f_promise f) (f_originalRequest f))
       (onRefreshed True (s\<lparr>isRefreshing := False\<rparr>))"

text \<open>Lines 51 to 60: the invocation resumes after the awaited refresh call was rejected with \<open>refreshError\<close>.\<close>

definition refresh_rejected :: "frame \<Rightarrow> AxiosError \<Rightarrow> state \<Rightarrow> state" where
  "refresh_rejected f refreshError s =
     (let s1 = onRefreshed False (s\<lparr>isRefreshing := False\<rparr>);
          s2 = (if window_defined s1 then emit (Navigate ''/signin'') s1 else s1)
      in emit (Rejected (f_promise f) refreshError) s2)"

section \<open>The event loop\<close>

text \<open>
  How a promise was settled, read from the trace: a promise settles once, so the first
  settlement counts.
\<close>

datatype settled = Fulfilled result | RejectedWith AxiosError

fun settlement :: "effect list \<Rightarrow> promise_id \<Rightarrow> settled option" where
  "settlement [] p = None"
| "settlement (Resolved q v # es) p = (if q = p then Some (Fulfilled v) else settlement es p)"
| "settlement (Rejected q e # es) p = (if q = p then Some (RejectedWith e) else settlement es p)"
| "settlement (PostRefresh q # es) p = settlement es p"
| "settlement (Request q c # es) p = settlement es p"
| "settlement (Navigate u # es) p = settlement es p"

definition ready :: "state \<Rightarrow> frame \<Rightarrow> bool" where
  "ready s f = (settlement (trace s) (f_awaits f) \<noteq> None)"

definition resume :: "frame \<Rightarrow> state \<Rightarrow> state" where
  "resume f s =
     (case settlement (trace s) (f_awaits f) of
        None \<Rightarrow> s
      | Some (Fulfilled v) \<Rightarrow> refresh_fulfilled f s
      | Some (RejectedWith e) \<Rightarrow> refresh_rejected f e s)"

text \<open>
  After a handler has run, every suspended invocation whose awaited promise is settled
  resumes, before the next response is handled (promise reactions are microtasks).
\<close>

function run_microtasks :: "state \<Rightarrow> state" where
  "run_microtasks s =
     (case List.find (ready s) (suspended s) of
        None \<Rightarrow> s
      | Some f \<Rightarrow> run_microtasks (resume f (s\<lparr>suspended := remove1 f (suspended s)\<rparr>)))"
  by pat_completeness auto
termination
proof (relation "measure (\<lambda>s. length (suspended s))")
  show "wf (measure (\<lambda>s. length (suspended s)))" by simp
next
  fix s :: state and f :: frame
  assume found: "List.find (ready s) (suspended s) = Some f"
  have fold_keeps: "suspended (fold (\<lambda>w. callback w ok) ws t) = suspended t"
    for ok ws and t :: state
    by (induction ws arbitrary: t) (simp_all add: callback_def emit_def)
  have on_keeps: "suspended (onRefreshed ok t) = suspended t" for ok and t :: state
    by (simp add: onRefreshed_def fold_keeps)
  have resume_keeps: "suspended (resume f t) = suspended t" for t :: state
    by (simp add: resume_def refresh_fulfilled_def refresh_rejected_def emit_def on_keeps Let_def
        split: option.splits settled.splits)
  from found have "f \<in> set (suspended s)"
    by (auto simp: find_Some_iff)
  then have "length (remove1 f (suspended s)) < length (suspended s)"
    by (simp add: length_remove1) (cases "suspended s"; simp)
  then show "(resume f (s\<lparr>suspended := remove1 f (suspended s)\<rparr>), s)
      \<in> measure (\<lambda>s. length (suspended s))"
    by (simp add: resume_keeps)
qed

text \<open>
  What the network delivers: the exchange of the call with promise \<open>p\<close> ends in an error,
  which the client hands to \<^verbatim>\<open>responseErrorInterceptor\<close>, or in a response, which the
  fulfilment handler \<^verbatim>\<open>(r) => r\<close> of \<^verbatim>\<open>index.ts\<close> passes on.
\<close>

datatype event = Fails promise_id AxiosError | Succeeds promise_id nat

fun handle :: "event \<Rightarrow> state \<Rightarrow> state" where
  "handle (Fails p error) s = responseErrorInterceptor p error s"
| "handle (Succeeds p r) s = emit (Resolved p (Response r)) s"

definition step :: "event \<Rightarrow> state \<Rightarrow> state" where
  "step ev s = run_microtasks (handle ev s)"

definition run :: "event list \<Rightarrow> state \<Rightarrow> state" where
  "run evs s = fold step evs s"

section \<open>Notions used in the statements\<close>

text \<open>
  A failure is a rejected exchange of a call made through the client: the promise of the
  call and the error the client hands to the interceptor.
\<close>

type_synonym failure = "promise_id \<times> AxiosError"

text \<open>
  The test of line 27 for an error that is no cancellation: status 401, a descriptor, and
  no marker on it yet.
\<close>

definition first_attempt_401 :: "state \<Rightarrow> AxiosError \<Rightarrow> bool" where
  "first_attempt_401 s e =
     (\<not> is_cancel e \<and> status e = Some 401 \<and>
      (case config e of None \<Rightarrow> False | Some c \<Rightarrow> \<not> retried s c))"

text \<open>An error that is neither a cancellation nor a first-attempt 401.\<close>

definition passes_through :: "state \<Rightarrow> AxiosError \<Rightarrow> bool" where
  "passes_through s e = (\<not> is_cancel e \<and> \<not> first_attempt_401 s e)"

text \<open>
  No refresh is in flight: the flag is down, nobody waits, no invocation is suspended, and
  the promise of the refresh call that would be made next is not settled.
\<close>

definition idle :: "state \<Rightarrow> bool" where
  "idle s =
     (\<not> isRefreshing s \<and> refreshSubscribers s = [] \<and> suspended s = [] \<and>
      settlement (trace s) (RefreshCall (refreshCalls s)) = None)"

definition fails :: "failure list \<Rightarrow> event list" where
  "fails qs = map (\<lambda>q. Fails (fst q) (snd q)) qs"

definition descriptor :: "failure \<Rightarrow> config_ref" where
  "descriptor q = the (config (snd q))"

text \<open>
  Requests that each fail with a first-attempt 401, every one with a descriptor object of
  its own (the client builds one per call).
\<close>

definition concurrent_401s :: "state \<Rightarrow> failure list \<Rightarrow> bool" where
  "concurrent_401s s qs =
     (list_all (\<lambda>q. first_attempt_401 s (snd q)) qs \<and> distinct (map descriptor qs))"

definition waiter_of :: "failure \<Rightarrow> waiter" where
  "waiter_of q = \<lparr>w_error = snd q, w_originalRequest = descriptor q, w_promise = fst q\<rparr>"

definition frame_of :: "failure \<Rightarrow> promise_id \<Rightarrow> frame" where
  "frame_of q r = \<lparr>f_promise = fst q, f_originalRequest = descriptor q, f_awaits = r\<rparr>"

definition replay_of :: "failure \<Rightarrow> effect" where
  "replay_of q = Request (fst q) (descriptor q)"

definition rejection_of :: "failure \<Rightarrow> effect" where
  "rejection_of q = Rejected (fst q) (snd q)"

text \<open>The store after line 28 has run on each of the descriptors \<open>cs\<close>.\<close>

definition mark_all ::
  "config_ref list \<Rightarrow> (config_ref \<Rightarrow> AxiosRequestConfig) \<Rightarrow> config_ref \<Rightarrow> AxiosRequestConfig" where
  "mark_all cs cfgs = (\<lambda>c. if c \<in> set cs then (cfgs c)\<lparr>retry := Some True\<rparr> else cfgs c)"

definition callback_effect :: "bool \<Rightarrow> waiter \<Rightarrow> effect" where
  "callback_effect ok w =
     (if ok then Request (w_promise w) (w_originalRequest w) else Rejected (w_promise w) (w_error w))"

text \<open>
  The state while the refresh call of an episode is in flight: the first failure of \<open>qs\<close>
  started it and is suspended at line 45, the others wait in the order of their arrival.
\<close>

definition pending :: "state \<Rightarrow> failure list \<Rightarrow> state" where
  "pending s qs =
     s\<lparr>configs := mark_all (map descriptor qs) (configs s),
       isRefreshing := True,
       refreshCalls := Suc (refreshCalls s),
       suspended := [frame_of (hd qs) (RefreshCall (refreshCalls s))],
       refreshSubscribers := map waiter_of (tl qs),
       trace := trace s @ [PostRefresh (RefreshCall (refreshCalls s))]\<rparr>"

text \<open>
  Readings of a trace: the calls \<^verbatim>\<open>SquareAxios(originalRequest)\<close> in the order they were
  made, and the targets of the navigations.
\<close>

fun replays :: "effect list \<Rightarrow> (promise_id \<times> config_ref) list" where
  "replays [] = []"
| "replays (Request p c # es) = (p, c) # replays es"
| "replays (PostRefresh r # es) = replays es"
| "replays (Navigate u # es) = replays es"
| "replays (Resolved p v # es) = replays es"
| "replays (Rejected p e # es) = replays es"

fun navigations :: "effect list \<Rightarrow> string list" where
  "navigations [] = []"
| "navigations (Navigate u # es) = u # navigations es"
| "navigations (PostRefresh r # es) = navigations es"
| "navigations (Request p c # es) = navigations es"
| "navigations (Resolved p v # es) = navigations es"
| "navigations (Rejected p e # es) = navigations es"

text \<open>
  How often the descriptor \<open>c\<close> has been sent again, and how many callbacks and suspended
  invocations still hold it for a replay.
\<close>

definition retries :: "config_ref \<Rightarrow> state \<Rightarrow> nat" where
  "retries c s = count_list (map snd (replays (trace s))) c"

definition owed :: "config_ref \<Rightarrow> state \<Rightarrow> nat" where
  "owed c s =
     count_list (map w_originalRequest (refreshSubscribers s)) c +
     count_list (map f_originalRequest (suspended s)) c"

text \<open>
  The two invariants of the module: a descriptor is replayed, or held for a replay, at most
  once and only when it carries the marker; and callbacks wait only while the flag is up.
\<close>

definition one_shot :: "state \<Rightarrow> bool" where
  "one_shot s = (\<forall>c. retries c s + owed c s \<le> (if retried s c then 1 else 0))"

definition coherent :: "state \<Rightarrow> bool" where
  "coherent s = (isRefreshing s \<or> refreshSubscribers s = [])"

text \<open>
  The invocation \<open>f\<close> is suspended on a promise that nothing has settled, with the callbacks
  \<open>ws\<close> at the head of the queue.
\<close>

fun promise_of :: "event \<Rightarrow> promise_id" where
  "promise_of (Fails p e) = p"
| "promise_of (Succeeds p v) = p"

definition blocked :: "frame \<Rightarrow> waiter list \<Rightarrow> state \<Rightarrow> bool" where
  "blocked f ws s =
     (isRefreshing s \<and> suspended s = [f] \<and> settlement (trace s) (f_awaits f) = None \<and>
      take (length ws) (refreshSubscribers s) = ws)"

text \<open>
  The scenario of three requests A, B and C (callers 0, 1 and 2) that fail with 401 one
  after the other, on a store where no descriptor carries the marker.
\<close>

definition unmarked :: "config_ref \<Rightarrow> AxiosRequestConfig" where
  "unmarked = (\<lambda>c. \<lparr>retry = None\<rparr>)"

definition unauthorized :: "config_ref \<Rightarrow> AxiosError" where
  "unauthorized c = \<lparr>is_cancel = False, status = Some 401, config = Some c\<rparr>"

definition server_error :: "config_ref \<Rightarrow> AxiosError" where
  "server_error c = \<lparr>is_cancel = False, status = Some 500, config = Some c\<rparr>"

definition cancelled :: "config_ref \<Rightarrow> AxiosError" where
  "cancelled c = \<lparr>is_cancel = True, status = None, config = Some c\<rparr>"

text \<open>A 401 whose error object has no \<^verbatim>\<open>config\<close>.\<close>

definition orphan_unauthorized :: AxiosError where
  "orphan_unauthorized = \<lparr>is_cancel = False, status = Some 401, config = None\<rparr>"

definition three_requests :: "failure list" where
  "three_requests =
     [(Caller 0, unauthorized 0), (Caller 1, unauthorized 1), (Caller 2, unauthorized 2)]"

section \<open>Auxiliary facts\<close>

declare run_microtasks.simps [simp del]

lemma fold_callback:
  "fold (\<lambda>w. callback w ok) ws s = s\<lparr>trace := trace s @ map (callback_effect ok) ws\<rparr>"
  by (induction ws arbitrary: s) (simp_all add: callback_def callback_effect_def emit_def)

lemma onRefreshed_eq:
  "onRefreshed ok s =
     s\<lparr>trace := trace s @ map (callback_effect ok) (refreshSubscribers s), refreshSubscribers := []\<rparr>"
  by (simp add: onRefreshed_def fold_callback)

lemma run_microtasks_none:
  "List.find (ready s) (suspended s) = None \<Longrightarrow> run_microtasks s = s"
  by (subst run_microtasks.simps) simp

lemma run_microtasks_nil: "suspended s = [] \<Longrightarrow> run_microtasks s = s"
  by (simp add: run_microtasks_none)

lemma suspended_resume: "suspended (resume f s) = suspended s"
  by (simp add: resume_def refresh_fulfilled_def refresh_rejected_def emit_def onRefreshed_eq Let_def
        split: option.splits settled.splits)

lemma run_microtasks_single:
  "suspended s = [f] \<Longrightarrow> ready s f \<Longrightarrow> run_microtasks s = resume f (s\<lparr>suspended := []\<rparr>)"
  by (subst run_microtasks.simps) (simp add: run_microtasks_nil suspended_resume)

lemma run_microtasks_waiting:
  "suspended s = [f] \<Longrightarrow> \<not> ready s f \<Longrightarrow> run_microtasks s = s"
  by (simp add: run_microtasks_none)

lemma settlement_append:
  "settlement (es @ fs) p = (case settlement es p of None \<Rightarrow> settlement fs p | Some x \<Rightarrow> Some x)"
  by (induction es p rule: settlement.induct) simp_all

lemma run_Nil: "run [] s = s"
  by (simp add: run_def)

lemma run_Cons: "run (ev # evs) s = run evs (step ev s)"
  by (simp add: run_def)

lemma run_append: "run (evs @ evs') s = run evs' (run evs s)"
  by (simp add: run_def)

lemma first_401:
  assumes "idle s" and "first_attempt_401 s (snd q)"
  shows "step (Fails (fst q) (snd q)) s =
     s\<lparr>configs := mark_all [descriptor q] (configs s),
       isRefreshing := True,
       refreshCalls := Suc (refreshCalls s),
       suspended := [frame_of q (RefreshCall (refreshCalls s))],
       trace := trace s @ [PostRefresh (RefreshCall (refreshCalls s))]\<rparr>"
proof -
  from assms(2) obtain c where c: "config (snd q) = Some c" "\<not> retried s c"
    "\<not> is_cancel (snd q)" "status (snd q) = Some 401"
    by (auto simp: first_attempt_401_def split: option.splits)
  have m: "mark_all [c] (configs s) = (configs s)(c := (configs s c)\<lparr>retry := Some True\<rparr>)"
    by (auto simp: mark_all_def)
  let ?t = "responseErrorInterceptor (fst q) (snd q) s"
  have t: "?t = s\<lparr>configs := mark_all [descriptor q] (configs s),
       isRefreshing := True,
       refreshCalls := Suc (refreshCalls s),
       suspended := [frame_of q (RefreshCall (refreshCalls s))],
       trace := trace s @ [PostRefresh (RefreshCall (refreshCalls s))]\<rparr>"
    using assms(1) c
    by (simp add: responseErrorInterceptor_def idle_def mark_retried_def emit_def Let_def
        descriptor_def frame_of_def m)
  have "\<not> ready ?t (frame_of q (RefreshCall (refreshCalls s)))"
    using assms(1) by (simp add: t ready_def frame_of_def idle_def settlement_append)
  then have "run_microtasks ?t = ?t"
    by (intro run_microtasks_waiting[where f = "frame_of q (RefreshCall (refreshCalls s))"])
       (simp_all add: t)
  then show ?thesis
    by (simp add: step_def t)
qed

lemma later_401:
  assumes "isRefreshing t" and "first_attempt_401 t (snd q)"
    and "List.find (ready t) (suspended t) = None"
  shows "step (Fails (fst q) (snd q)) t =
     t\<lparr>configs := mark_all [descriptor q] (configs t),
       refreshSubscribers := refreshSubscribers t @ [waiter_of q]\<rparr>"
proof -
  from assms(2) obtain c where c: "config (snd q) = Some c" "\<not> retried t c"
    "\<not> is_cancel (snd q)" "status (snd q) = Some 401"
    by (auto simp: first_attempt_401_def split: option.splits)
  have m: "mark_all [c] (configs t) = (configs t)(c := (configs t c)\<lparr>retry := Some True\<rparr>)"
    by (auto simp: mark_all_def)
  let ?u = "responseErrorInterceptor (fst q) (snd q) t"
  have u: "?u = t\<lparr>configs := mark_all [descriptor q] (configs t),
       refreshSubscribers := refreshSubscribers t @ [waiter_of q]\<rparr>"
    using assms(1) c
    by (simp add: responseErrorInterceptor_def mark_retried_def subscribeRefresh_def Let_def
        descriptor_def waiter_of_def m)
  have "List.find (ready ?u) (suspended ?u) = None"
    using assms(3) by (simp add: u ready_def[abs_def])
  then have "run_microtasks ?u = ?u"
    by (rule run_microtasks_none)
  then show ?thesis
    by (simp add: step_def u)
qed

lemma mark_all_mark_all: "mark_all cs (mark_all [c] cfgs) = mark_all (c # cs) cfgs"
  by (auto simp: mark_all_def)

lemma first_attempt_401_marked:
  assumes "first_attempt_401 t e" and "the (config e) \<noteq> c"
  shows "first_attempt_401 (t\<lparr>configs := mark_all [c] (configs t), refreshSubscribers := ws\<rparr>) e"
  using assms by (auto simp: first_attempt_401_def retried_def mark_all_def split: option.splits)

lemma later_401s:
  assumes "isRefreshing t" and "concurrent_401s t qs"
    and "List.find (ready t) (suspended t) = None"
  shows "run (fails qs) t =
     t\<lparr>configs := mark_all (map descriptor qs) (configs t),
       refreshSubscribers := refreshSubscribers t @ map waiter_of qs\<rparr>"
  using assms
proof (induction qs arbitrary: t)
  case Nil
  then show ?case by (simp add: fails_def run_Nil mark_all_def)
next
  case (Cons q qs)
  let ?u = "t\<lparr>configs := mark_all [descriptor q] (configs t),
       refreshSubscribers := refreshSubscribers t @ [waiter_of q]\<rparr>"
  from Cons.prems(2) have q: "first_attempt_401 t (snd q)"
    by (simp add: concurrent_401s_def)
  have st: "step (Fails (fst q) (snd q)) t = ?u"
    using Cons.prems(1) q Cons.prems(3) by (rule later_401)
  have cu: "concurrent_401s ?u qs"
    unfolding concurrent_401s_def list_all_iff
  proof (intro conjI ballI)
    fix q' assume q': "q' \<in> set qs"
    from Cons.prems(2) have "descriptor q \<notin> descriptor ` set qs"
      by (simp add: concurrent_401s_def)
    with q' have "descriptor q' \<noteq> descriptor q"
      by (metis imageI)
    moreover from Cons.prems(2) q' have "first_attempt_401 t (snd q')"
      by (simp add: concurrent_401s_def list_all_iff)
    ultimately have "first_attempt_401 t (snd q')" and "descriptor q' \<noteq> descriptor q"
      by simp_all
    then show "first_attempt_401 ?u (snd q')"
      by (simp add: descriptor_def first_attempt_401_marked)
  next
    show "distinct (map descriptor qs)"
      using Cons.prems(2) by (simp add: concurrent_401s_def)
  qed
  have "isRefreshing ?u" using Cons.prems(1) by simp
  moreover note cu
  moreover have "List.find (ready ?u) (suspended ?u) = None"
    using Cons.prems(3) by (simp add: ready_def[abs_def])
  ultimately have "run (fails qs) ?u =
     ?u\<lparr>configs := mark_all (map descriptor qs) (configs ?u),
       refreshSubscribers := refreshSubscribers ?u @ map waiter_of qs\<rparr>"
    by (rule Cons.IH)
  then show ?case
    by (simp add: fails_def run_Cons st mark_all_mark_all)
qed

lemma episode_start:
  assumes "idle s" and "concurrent_401s s (q # qs)"
  shows "run (fails (q # qs)) s = pending s (q # qs)"
proof -
  let ?r = "RefreshCall (refreshCalls s)"
  let ?t = "s\<lparr>configs := mark_all [descriptor q] (configs s),
       isRefreshing := True,
       refreshCalls := Suc (refreshCalls s),
       suspended := [frame_of q ?r],
       trace := trace s @ [PostRefresh ?r]\<rparr>"
  from assms(2) have q: "first_attempt_401 s (snd q)"
    by (simp add: concurrent_401s_def)
  have st: "step (Fails (fst q) (snd q)) s = ?t"
    using assms(1) q by (rule first_401)
  have ct: "concurrent_401s ?t qs"
    unfolding concurrent_401s_def list_all_iff
  proof (intro conjI ballI)
    fix q' assume q': "q' \<in> set qs"
    from assms(2) have "descriptor q \<notin> descriptor ` set qs"
      by (simp add: concurrent_401s_def)
    with q' have "descriptor q' \<noteq> descriptor q"
      by (metis imageI)
    moreover from assms(2) q' have "first_attempt_401 s (snd q')"
      by (simp add: concurrent_401s_def list_all_iff)
    ultimately show "first_attempt_401 ?t (snd q')"
      by (auto simp: first_attempt_401_def retried_def mark_all_def descriptor_def
          split: option.splits)
  next
    show "distinct (map descriptor qs)"
      using assms(2) by (simp add: concurrent_401s_def)
  qed
  have "\<not> ready ?t (frame_of q ?r)"
    using assms(1) by (simp add: ready_def frame_of_def idle_def settlement_append)
  then have nf: "List.find (ready ?t) (suspended ?t) = None"
    by simp
  have "isRefreshing ?t" by simp
  then have "run (fails qs) ?t =
     ?t\<lparr>configs := mark_all (map descriptor qs) (configs ?t),
       refreshSubscribers := refreshSubscribers ?t @ map waiter_of qs\<rparr>"
    using ct nf by (rule later_401s)
  then show ?thesis
    using assms(1) by (simp add: fails_def run_Cons st mark_all_mark_all pending_def idle_def)
qed

lemma settlement_pending:
  assumes "idle s"
  shows "settlement (trace (pending s qs) @ [e]) (RefreshCall (refreshCalls s)) = settlement [e] (RefreshCall (refreshCalls s))"
  using assms by (simp add: pending_def idle_def settlement_append)

lemma refresh_succeeds:
  assumes "idle s"
  shows "step (Succeeds (RefreshCall (refreshCalls s)) v) (pending s qs) =
     s\<lparr>configs := mark_all (map descriptor qs) (configs s),
       isRefreshing := False,
       refreshCalls := Suc (refreshCalls s),
       suspended := [],
       refreshSubscribers := [],
       trace := trace s @
         [PostRefresh (RefreshCall (refreshCalls s)),
          Resolved (RefreshCall (refreshCalls s)) (Response v)] @
         map replay_of (tl qs) @ [replay_of (hd qs)]\<rparr>"
proof -
  let ?r = "RefreshCall (refreshCalls s)"
  let ?f = "frame_of (hd qs) ?r"
  let ?t = "emit (Resolved ?r (Response v)) (pending s qs)"
  have set: "settlement (trace ?t) ?r = Some (Fulfilled (Response v))"
    using settlement_pending[OF assms, of qs "Resolved ?r (Response v)"]
    by (simp add: emit_def)
  have sus: "suspended ?t = [?f]"
    by (simp add: emit_def pending_def)
  have rdy: "ready ?t ?f"
    using set by (simp add: ready_def frame_of_def)
  have callbacks: "callback_effect True \<circ> waiter_of = replay_of"
    by (auto simp: callback_effect_def waiter_of_def replay_of_def)
  have "run_microtasks ?t = resume ?f (?t\<lparr>suspended := []\<rparr>)"
    using sus rdy by (rule run_microtasks_single)
  also have "\<dots> = refresh_fulfilled ?f (?t\<lparr>suspended := []\<rparr>)"
    using set by (simp add: resume_def frame_of_def)
  also have "\<dots> = s\<lparr>configs := mark_all (map descriptor qs) (configs s),
       isRefreshing := False,
       refreshCalls := Suc (refreshCalls s),
       suspended := [],
       refreshSubscribers := [],
       trace := trace s @ [PostRefresh ?r, Resolved ?r (Response v)] @
         map replay_of (tl qs) @ [replay_of (hd qs)]\<rparr>"
    using assms
    by (simp add: refresh_fulfilled_def onRefreshed_eq emit_def pending_def callbacks idle_def
        frame_of_def replay_of_def)
  finally show ?thesis
    unfolding step_def handle.simps .
qed

lemma interceptor_passes_through:
  "passes_through s e \<Longrightarrow> responseErrorInterceptor p e s = emit (Rejected p e) s"
  by (auto simp: passes_through_def first_attempt_401_def responseErrorInterceptor_def
      split: option.splits)

lemma refresh_fails:
  assumes "idle s" and "passes_through (pending s qs) e"
  shows "step (Fails (RefreshCall (refreshCalls s)) e) (pending s qs) =
     s\<lparr>configs := mark_all (map descriptor qs) (configs s),
       isRefreshing := False,
       refreshCalls := Suc (refreshCalls s),
       suspended := [],
       refreshSubscribers := [],
       trace := trace s @
         [PostRefresh (RefreshCall (refreshCalls s)),
          Rejected (RefreshCall (refreshCalls s)) e] @
         map rejection_of (tl qs) @
         (if window_defined s then [Navigate ''/signin''] else []) @
         [Rejected (fst (hd qs)) e]\<rparr>"
proof -
  let ?r = "RefreshCall (refreshCalls s)"
  let ?f = "frame_of (hd qs) ?r"
  let ?t = "emit (Rejected ?r e) (pending s qs)"
  have h: "responseErrorInterceptor ?r e (pending s qs) = ?t"
    using assms(2) by (rule interceptor_passes_through)
  have set: "settlement (trace ?t) ?r = Some (RejectedWith e)"
    using settlement_pending[OF assms(1), of qs "Rejected ?r e"]
    by (simp add: emit_def)
  have sus: "suspended ?t = [?f]"
    by (simp add: emit_def pending_def)
  have rdy: "ready ?t ?f"
    using set by (simp add: ready_def frame_of_def)
  have callbacks: "callback_effect False \<circ> waiter_of = rejection_of"
    by (auto simp: callback_effect_def waiter_of_def rejection_of_def)
  have "run_microtasks ?t = resume ?f (?t\<lparr>suspended := []\<rparr>)"
    using sus rdy by (rule run_microtasks_single)
  also have "\<dots> = refresh_rejected ?f e (?t\<lparr>suspended := []\<rparr>)"
    using set by (simp add: resume_def frame_of_def)
  also have "\<dots> = s\<lparr>configs := mark_all (map descriptor qs) (configs s),
       isRefreshing := False,
       refreshCalls := Suc (refreshCalls s),
       suspended := [],
       refreshSubscribers := [],
       trace := trace s @ [PostRefresh ?r, Rejected ?r e] @
         map rejection_of (tl qs) @
         (if window_defined s then [Navigate ''/signin''] else []) @
         [Rejected (fst (hd qs)) e]\<rparr>"
    using assms(1)
    by (simp add: refresh_rejected_def onRefreshed_eq emit_def pending_def callbacks idle_def
        frame_of_def Let_def)
  finally show ?thesis
    unfolding step_def handle.simps h .
qed

lemma success_episode:
  assumes "idle s" and "qs \<noteq> []" and "concurrent_401s s qs"
  shows "run (fails qs @ [Succeeds (RefreshCall (refreshCalls s)) v]) s =
     s\<lparr>configs := mark_all (map descriptor qs) (configs s),
       isRefreshing := False,
       refreshCalls := Suc (refreshCalls s),
       suspended := [],
       refreshSubscribers := [],
       trace := trace s @
         [PostRefresh (RefreshCall (refreshCalls s)),
          Resolved (RefreshCall (refreshCalls s)) (Response v)] @
         map replay_of (tl qs) @ [replay_of (hd qs)]\<rparr>"
proof -
  from assms(2) obtain q qs' where qs: "qs = q # qs'"
    by (cases qs) auto
  have "run (fails qs) s = pending s qs"
    using assms(1,3) unfolding qs by (rule episode_start)
  then show ?thesis
    by (simp add: run_append run_Cons run_Nil refresh_succeeds[OF assms(1)])
qed

lemma failure_episode:
  assumes "idle s" and "qs \<noteq> []" and "concurrent_401s s qs"
    and "passes_through (run (fails qs) s) e"
  shows "run (fails qs @ [Fails (RefreshCall (refreshCalls s)) e]) s =
     s\<lparr>configs := mark_all (map descriptor qs) (configs s),
       isRefreshing := False,
       refreshCalls := Suc (refreshCalls s),
       suspended := [],
       refreshSubscribers := [],
       trace := trace s @
         [PostRefresh (RefreshCall (refreshCalls s)),
          Rejected (RefreshCall (refreshCalls s)) e] @
         map rejection_of (tl qs) @
         (if window_defined s then [Navigate ''/signin''] else []) @
         [Rejected (fst (hd qs)) e]\<rparr>"
proof -
  from assms(2) obtain q qs' where qs: "qs = q # qs'"
    by (cases qs) auto
  have p: "run (fails qs) s = pending s qs"
    using assms(1,3) unfolding qs by (rule episode_start)
  with assms(4) have "passes_through (pending s qs) e"
    by simp
  with assms(1) have "step (Fails (RefreshCall (refreshCalls s)) e) (pending s qs) =
     s\<lparr>configs := mark_all (map descriptor qs) (configs s),
       isRefreshing := False,
       refreshCalls := Suc (refreshCalls s),
       suspended := [],
       refreshSubscribers := [],
       trace := trace s @
         [PostRefresh (RefreshCall (refreshCalls s)),
          Rejected (RefreshCall (refreshCalls s)) e] @
         map rejection_of (tl qs) @
         (if window_defined s then [Navigate ''/signin''] else []) @
         [Rejected (fst (hd qs)) e]\<rparr>"
    by (rule refresh_fails)
  then show ?thesis
    unfolding run_append p run_Cons run_Nil .
qed

lemma idle_initial: "idle (initial cfgs w)"
  by (simp add: idle_def initial_def)

lemma three_requests_concurrent: "concurrent_401s (initial unmarked w) three_requests"
  by (simp add: concurrent_401s_def three_requests_def first_attempt_401_def unauthorized_def
      retried_def initial_def unmarked_def descriptor_def)

lemma three_requests_not_Nil: "three_requests \<noteq> []"
  by (simp add: three_requests_def)

lemma replays_append: "replays (es @ fs) = replays es @ replays fs"
  by (induction es rule: replays.induct) simp_all

lemma replays_replay_of: "replays (map replay_of qs) = map (\<lambda>q. (fst q, descriptor q)) qs"
  by (induction qs) (simp_all add: replay_of_def)

lemma navigations_append: "navigations (es @ fs) = navigations es @ navigations fs"
  by (induction es rule: navigations.induct) simp_all

lemma navigations_replay_of: "navigations (map replay_of qs) = []"
  by (induction qs) (simp_all add: replay_of_def)

lemma navigations_rejection_of: "navigations (map rejection_of qs) = []"
  by (induction qs) (simp_all add: rejection_of_def)

lemma navigations_interceptor:
  "navigations (trace (responseErrorInterceptor p e s)) = navigations (trace s)"
  by (simp add: responseErrorInterceptor_def emit_def mark_retried_def subscribeRefresh_def
      Let_def navigations_append)

lemma distinct_replays:
  assumes "distinct (map descriptor qs)"
  shows "distinct (map replay_of qs)"
proof -
  have "inj_on replay_of (set qs)"
  proof (rule inj_onI)
    fix x y assume "x \<in> set qs" "y \<in> set qs" "replay_of x = replay_of y"
    then have "descriptor x = descriptor y"
      by (simp add: replay_of_def)
    with assms \<open>x \<in> set qs\<close> \<open>y \<in> set qs\<close> show "x = y"
      by (meson distinct_map inj_onD)
  qed
  with assms show ?thesis
    by (simp add: distinct_map)
qed

lemma count_distinct: "distinct xs \<Longrightarrow> x \<in> set xs \<Longrightarrow> count_list xs x = 1"
  by (induction xs) auto

lemma count_rotated:
  "qs \<noteq> [] \<Longrightarrow> count_list (map f (tl qs) @ [f (hd qs)]) x = count_list (map f qs) x"
  by (cases qs) simp_all

lemma replayed_once:
  assumes "distinct (map descriptor qs)" and "qs \<noteq> []" and "q \<in> set qs"
  shows "count_list (map replay_of (tl qs) @ [replay_of (hd qs)]) (replay_of q) = 1"
proof -
  have "distinct (map replay_of qs)"
    using assms(1) by (rule distinct_replays)
  moreover have "replay_of q \<in> set (map replay_of qs)"
    using assms(3) by simp
  ultimately have "count_list (map replay_of qs) (replay_of q) = 1"
    by (rule count_distinct)
  with count_rotated[OF assms(2), of replay_of "replay_of q"] show ?thesis
    by (simp only:)
qed

lemma rejection_not_replay: "count_list (map replay_of qs) (rejection_of q) = 0"
  by (induction qs) (simp_all add: replay_of_def rejection_of_def)

lemma retried_mark_all: "c \<in> set cs \<Longrightarrow> retry (mark_all cs cfgs c) = Some True"
  by (simp add: mark_all_def)

lemma server_error_passes: "passes_through s (server_error c)"
  by (simp add: passes_through_def first_attempt_401_def server_error_def)

lemma coherent_interceptor: "coherent s \<Longrightarrow> coherent (responseErrorInterceptor p e s)"
  by (auto simp: coherent_def responseErrorInterceptor_def emit_def mark_retried_def
      subscribeRefresh_def Let_def)

lemma coherent_handle: "coherent s \<Longrightarrow> coherent (handle ev s)"
  by (cases ev) (simp_all add: coherent_interceptor, simp add: coherent_def emit_def)

lemma coherent_resume: "coherent s \<Longrightarrow> coherent (resume f s)"
  by (simp add: coherent_def resume_def refresh_fulfilled_def refresh_rejected_def emit_def
      onRefreshed_eq Let_def split: option.splits settled.splits)

lemma coherent_microtasks: "coherent s \<Longrightarrow> coherent (run_microtasks s)"
proof (induction s rule: run_microtasks.induct)
  case (1 s)
  show ?case
  proof (cases "List.find (ready s) (suspended s)")
    case None
    then show ?thesis
      using "1.prems" by (simp add: run_microtasks_none)
  next
    case (Some f)
    have "coherent (s\<lparr>suspended := remove1 f (suspended s)\<rparr>)"
      using "1.prems" by (simp add: coherent_def)
    then have "coherent (resume f (s\<lparr>suspended := remove1 f (suspended s)\<rparr>))"
      by (rule coherent_resume)
    then have "coherent (run_microtasks (resume f (s\<lparr>suspended := remove1 f (suspended s)\<rparr>)))"
      using Some by (rule "1.IH"[rotated])
    then show ?thesis
      using Some by (subst run_microtasks.simps) simp
  qed
qed

lemma coherent_step: "coherent s \<Longrightarrow> coherent (step ev s)"
  by (simp add: step_def coherent_handle coherent_microtasks)

lemma coherent_run: "coherent s \<Longrightarrow> coherent (run evs s)"
  by (induction evs arbitrary: s) (simp_all add: run_Nil run_Cons coherent_step)

lemma coherent_initial: "coherent (initial cfgs w)"
  by (simp add: coherent_def initial_def)

lemma replays_callbacks_True:
  "map snd (replays (map (callback_effect True) ws)) = map w_originalRequest ws"
  by (induction ws) (simp_all add: callback_effect_def)

lemma replays_callbacks_False: "replays (map (callback_effect False) ws) = []"
  by (induction ws) (simp_all add: callback_effect_def)

lemma count_remove1:
  "f \<in> set fs \<Longrightarrow>
     count_list (map g (remove1 f fs)) c + (if g f = c then 1 else 0) = count_list (map g fs) c"
  by (induction fs) auto

lemma one_shot_D: "one_shot s \<Longrightarrow> retries c s + owed c s \<le> (if retried s c then 1 else 0)"
  by (simp add: one_shot_def)

lemma one_shot_settle:
  assumes "one_shot s" and "t = s\<lparr>trace := trace s @ [e]\<rparr>" and "replays [e] = []"
  shows "one_shot t"
  unfolding one_shot_def
proof
  fix c
  have "retries c t = retries c s" "owed c t = owed c s" "retried t c = retried s c"
    using assms(2,3) by (simp_all add: retries_def owed_def retried_def replays_append)
  with one_shot_D[OF assms(1), of c]
  show "retries c t + owed c t \<le> (if retried t c then 1 else 0)"
    by simp
qed

lemma one_shot_interceptor:
  assumes "one_shot s"
  shows "one_shot (responseErrorInterceptor p e s)"
proof (cases "first_attempt_401 s e")
  case False
  show ?thesis
  proof (cases "is_cancel e")
    case True
    then have "responseErrorInterceptor p e s = s\<lparr>trace := trace s @ [Resolved p Null]\<rparr>"
      by (simp add: responseErrorInterceptor_def emit_def)
    with assms show ?thesis
      by (rule one_shot_settle) simp
  next
    case nc: False
    with False have "responseErrorInterceptor p e s = s\<lparr>trace := trace s @ [Rejected p e]\<rparr>"
      by (auto simp: responseErrorInterceptor_def first_attempt_401_def emit_def
          split: option.splits)
    with assms show ?thesis
      by (rule one_shot_settle) simp
  qed
next
  case True
  then obtain c0 where c0: "config e = Some c0" "\<not> retried s c0" "\<not> is_cancel e"
      "status e = Some 401"
    by (auto simp: first_attempt_401_def split: option.splits)
  let ?t = "responseErrorInterceptor p e s"
  from one_shot_D[OF assms, of c0] c0(2) have zero: "retries c0 s = 0" "owed c0 s = 0"
    by simp_all
  show ?thesis
    unfolding one_shot_def
  proof
    fix c
    note le = one_shot_D[OF assms, of c]
    show "retries c ?t + owed c ?t \<le> (if retried ?t c then 1 else 0)"
    proof (cases "c = c0")
      case True
      have "retries c0 ?t = retries c0 s" "owed c0 ?t = Suc (owed c0 s)" "retried ?t c0"
        using c0
        by (simp_all add: responseErrorInterceptor_def retries_def owed_def retried_def emit_def
            mark_retried_def subscribeRefresh_def Let_def replays_append)
      with zero True show ?thesis
        by simp
    next
      case False
      have "retries c ?t = retries c s" "owed c ?t = owed c s" "retried ?t c = retried s c"
        using c0 False
        by (simp_all add: responseErrorInterceptor_def retries_def owed_def retried_def emit_def
            mark_retried_def subscribeRefresh_def Let_def replays_append)
      with le show ?thesis
        by simp
    qed
  qed
qed

lemma one_shot_handle: "one_shot s \<Longrightarrow> one_shot (handle ev s)"
proof (cases ev)
  case (Fails p e)
  assume "one_shot s"
  then show ?thesis
    unfolding Fails handle.simps by (rule one_shot_interceptor)
next
  case (Succeeds p v)
  assume "one_shot s"
  moreover have "handle ev s = s\<lparr>trace := trace s @ [Resolved p (Response v)]\<rparr>"
    by (simp add: Succeeds emit_def)
  ultimately show ?thesis
    by (rule one_shot_settle) simp
qed

lemma one_shot_resume:
  assumes "one_shot s" and "f \<in> set (suspended s)"
  shows "one_shot (resume f (s\<lparr>suspended := remove1 f (suspended s)\<rparr>))"
  unfolding one_shot_def
proof
  fix c
  let ?u = "resume f (s\<lparr>suspended := remove1 f (suspended s)\<rparr>)"
  from assms(1) have le: "retries c s + owed c s \<le> (if retried s c then 1 else 0)"
    by (simp add: one_shot_def)
  have r: "retried ?u c = retried s c"
    by (simp add: resume_def refresh_fulfilled_def refresh_rejected_def emit_def onRefreshed_eq
        retried_def Let_def split: option.splits settled.splits)
  have "retries c ?u + owed c ?u \<le> retries c s + owed c s"
  proof (cases "settlement (trace s) (f_awaits f)")
    case None
    then show ?thesis
      using count_remove1[OF assms(2), of f_originalRequest c]
      by (simp add: resume_def retries_def owed_def split: if_splits)
  next
    case (Some x)
    show ?thesis
    proof (cases x)
      case (Fulfilled v)
      with Some show ?thesis
        using count_remove1[OF assms(2), of f_originalRequest c]
        by (simp add: resume_def refresh_fulfilled_def emit_def onRefreshed_eq
            retries_def owed_def replays_append replays_callbacks_True split: if_splits)
    next
      case (RejectedWith e)
      with Some show ?thesis
        using count_remove1[OF assms(2), of f_originalRequest c]
        by (simp add: resume_def refresh_rejected_def emit_def onRefreshed_eq
            retries_def owed_def replays_append replays_callbacks_False Let_def
            split: if_splits)
    qed
  qed
  with le r show "retries c ?u + owed c ?u \<le> (if retried ?u c then 1 else 0)"
    by simp
qed

lemma one_shot_microtasks: "one_shot s \<Longrightarrow> one_shot (run_microtasks s)"
proof (induction s rule: run_microtasks.induct)
  case (1 s)
  show ?case
  proof (cases "List.find (ready s) (suspended s)")
    case None
    then show ?thesis
      using "1.prems" by (simp add: run_microtasks_none)
  next
    case (Some f)
    then have "f \<in> set (suspended s)"
      by (auto simp: find_Some_iff)
    with "1.prems" have "one_shot (resume f (s\<lparr>suspended := remove1 f (suspended s)\<rparr>))"
      by (rule one_shot_resume)
    then have "one_shot (run_microtasks (resume f (s\<lparr>suspended := remove1 f (suspended s)\<rparr>)))"
      using Some by (rule "1.IH"[rotated])
    then show ?thesis
      using Some by (subst run_microtasks.simps) simp
  qed
qed

lemma one_shot_run: "one_shot s \<Longrightarrow> one_shot (run evs s)"
  by (induction evs arbitrary: s)
    (simp_all add: run_Nil run_Cons step_def one_shot_handle one_shot_microtasks)

lemma one_shot_initial: "one_shot (initial cfgs w)"
  by (simp add: one_shot_def retries_def owed_def initial_def)

lemma four_concurrent:
  "concurrent_401s (initial unmarked w) (three_requests @ [(RefreshCall 0, unauthorized 3)])"
  by (simp add: concurrent_401s_def three_requests_def first_attempt_401_def unauthorized_def
      retried_def initial_def unmarked_def descriptor_def)

lemma take_prefix_append:
  assumes "take (length ws) xs = ws"
  shows "take (length ws) (xs @ ys) = ws"
proof -
  have "length (take (length ws) xs) = length ws"
    using assms by simp
  then have "length ws \<le> length xs"
    by simp
  with assms show ?thesis
    by simp
qed

lemma blocked_step:
  assumes "blocked f ws s" and "promise_of ev \<noteq> f_awaits f"
  shows "blocked f ws (step ev s)"
proof -
  have h: "blocked f ws (handle ev s)"
  proof (cases ev)
    case (Fails p e)
    with assms show ?thesis
      by (auto simp: blocked_def responseErrorInterceptor_def emit_def mark_retried_def
          subscribeRefresh_def Let_def settlement_append take_prefix_append
          simp del: take_append)
  next
    case (Succeeds p v)
    with assms show ?thesis
      by (auto simp: blocked_def emit_def settlement_append)
  qed
  then have "List.find (ready (handle ev s)) (suspended (handle ev s)) = None"
    by (simp add: blocked_def ready_def)
  then have "run_microtasks (handle ev s) = handle ev s"
    by (rule run_microtasks_none)
  with h show ?thesis
    by (simp add: step_def)
qed

lemma blocked_run:
  assumes "blocked f ws s" and "list_all (\<lambda>ev. promise_of ev \<noteq> f_awaits f) evs"
  shows "blocked f ws (run evs s)"
  using assms
  by (induction evs arbitrary: s) (simp_all add: run_Nil run_Cons blocked_step)

lemma step_passes_through:
  assumes "suspended s = []" and "passes_through s e"
  shows "step (Fails p e) s = s\<lparr>trace := trace s @ [Rejected p e]\<rparr>"
  using assms by (simp add: step_def interceptor_passes_through emit_def run_microtasks_nil)

lemma resume_clears:
  assumes "ready s f"
  shows "\<not> isRefreshing (resume f s) \<and> refreshSubscribers (resume f s) = []"
  using assms
  by (auto simp: ready_def resume_def refresh_fulfilled_def refresh_rejected_def emit_def
      onRefreshed_eq Let_def split: settled.splits if_splits)

lemma refresh_401_blocked:
  "blocked \<lparr>f_promise = Caller 0, f_originalRequest = 0, f_awaits = RefreshCall 0\<rparr>
     [\<lparr>w_error = unauthorized 1, w_originalRequest = 1, w_promise = Caller 1\<rparr>,
      \<lparr>w_error = unauthorized 2, w_originalRequest = 2, w_promise = Caller 2\<rparr>,
      \<lparr>w_error = unauthorized 3, w_originalRequest = 3, w_promise = RefreshCall 0\<rparr>]
     (pending (initial unmarked w) (three_requests @ [(RefreshCall 0, unauthorized 3)]))"
  by (simp add: blocked_def pending_def initial_def three_requests_def frame_of_def waiter_of_def
      descriptor_def unauthorized_def)

lemma refresh_401_pending:
  "run (fails three_requests @ [Fails (RefreshCall 0) (unauthorized 3)]) (initial unmarked w) =
     pending (initial unmarked w) (three_requests @ [(RefreshCall 0, unauthorized 3)])"
proof -
  have "fails three_requests @ [Fails (RefreshCall 0) (unauthorized 3)] =
      fails (three_requests @ [(RefreshCall 0, unauthorized 3)])"
    by (simp add: fails_def)
  moreover have "run (fails (three_requests @ [(RefreshCall 0, unauthorized 3)])) (initial unmarked w) =
      pending (initial unmarked w) (three_requests @ [(RefreshCall 0, unauthorized 3)])"
    using episode_start[OF idle_initial, of unmarked w "(Caller 0, unauthorized 0)"
        "[(Caller 1, unauthorized 1), (Caller 2, unauthorized 2), (RefreshCall 0, unauthorized 3)]"]
      four_concurrent[of w]
    by (simp add: three_requests_def)
  ultimately show ?thesis
    by simp
qed

lemma refresh_401_never_settles:
  assumes "list_all (\<lambda>ev. promise_of ev \<noteq> RefreshCall 0) evs"
  shows "blocked \<lparr>f_promise = Caller 0, f_originalRequest = 0, f_awaits = RefreshCall 0\<rparr>
     [\<lparr>w_error = unauthorized 1, w_originalRequest = 1, w_promise = Caller 1\<rparr>,
      \<lparr>w_error = unauthorized 2, w_originalRequest = 2, w_promise = Caller 2\<rparr>,
      \<lparr>w_error = unauthorized 3, w_originalRequest = 3, w_promise = RefreshCall 0\<rparr>]
     (run (fails three_requests @ [Fails (RefreshCall 0) (unauthorized 3)] @ evs)
        (initial unmarked w))"
proof -
  have "run (fails three_requests @ [Fails (RefreshCall 0) (unauthorized 3)] @ evs) (initial unmarked w) =
      run evs (pending (initial unmarked w) (three_requests @ [(RefreshCall 0, unauthorized 3)]))"
    using run_append[of "fails three_requests @ [Fails (RefreshCall 0) (unauthorized 3)]" evs
        "initial unmarked w"]
    by (simp add: refresh_401_pending)
  moreover have "blocked \<lparr>f_promise = Caller 0, f_originalRequest = 0, f_awaits = RefreshCall 0\<rparr>
     [\<lparr>w_error = unauthorized 1, w_originalRequest = 1, w_promise = Caller 1\<rparr>,
      \<lparr>w_error = unauthorized 2, w_originalRequest = 2, w_promise = Caller 2\<rparr>,
      \<lparr>w_error = unauthorized 3, w_originalRequest = 3, w_promise = RefreshCall 0\<rparr>]
     (run evs (pending (initial unmarked w) (three_requests @ [(RefreshCall 0, unauthorized 3)])))"
    using blocked_run[OF refresh_401_blocked, of evs w] assms by simp
  ultimately show ?thesis
    by simp
qed

section \<open>The claims\<close>

text \<open>
  C1. From a state where no refresh is in flight, any number \<open>N \<ge> 1\<close> of requests that
  each fail with a first-attempt 401 cause exactly one refresh call: the first failure
  raises \<^verbatim>\<open>isRefreshing\<close>, issues the refresh POST and is suspended on it; every later one
  is appended to \<^verbatim>\<open>refreshSubscribers\<close> in the order of arrival and issues nothing. While
  that refresh is in flight no invocation of the interceptor, whatever its error, starts
  another refresh call.
\<close>

theorem single_refresh_per_episode:
  assumes "idle s" and "qs \<noteq> []" and "concurrent_401s s qs"
  shows "isRefreshing (run (fails qs) s) \<and>
    refreshCalls (run (fails qs) s) = Suc (refreshCalls s) \<and>
    trace (run (fails qs) s) = trace s @ [PostRefresh (RefreshCall (refreshCalls s))] \<and>
    suspended (run (fails qs) s) = [frame_of (hd qs) (RefreshCall (refreshCalls s))] \<and>
    refreshSubscribers (run (fails qs) s) = map waiter_of (tl qs) \<and>
    (\<forall>p e. refreshCalls (responseErrorInterceptor p e (run (fails qs) s)) = Suc (refreshCalls s))"
proof -
  from assms(2) obtain q qs' where qs: "qs = q # qs'"
    by (cases qs) auto
  have p: "run (fails qs) s = pending s qs"
    using assms(1,3) unfolding qs by (rule episode_start)
  have "refreshCalls (responseErrorInterceptor p e (pending s qs)) = Suc (refreshCalls s)" for p e
    by (simp add: responseErrorInterceptor_def pending_def emit_def mark_retried_def
        subscribeRefresh_def Let_def)
  then show ?thesis
    by (simp add: p) (simp add: pending_def)
qed

text \<open>The three-request scenario: one refresh call, A suspended on it, B and C waiting.\<close>

theorem single_refresh_per_episode_witness:
  "isRefreshing (run (fails three_requests) (initial unmarked True)) \<and>
   refreshCalls (run (fails three_requests) (initial unmarked True)) = 1 \<and>
   trace (run (fails three_requests) (initial unmarked True)) = [PostRefresh (RefreshCall 0)] \<and>
   suspended (run (fails three_requests) (initial unmarked True)) =
     [\<lparr>f_promise = Caller 0, f_originalRequest = 0, f_awaits = RefreshCall 0\<rparr>] \<and>
   refreshSubscribers (run (fails three_requests) (initial unmarked True)) =
     [\<lparr>w_error = unauthorized 1, w_originalRequest = 1, w_promise = Caller 1\<rparr>,
      \<lparr>w_error = unauthorized 2, w_originalRequest = 2, w_promise = Caller 2\<rparr>]"
  using single_refresh_per_episode[OF idle_initial three_requests_not_Nil three_requests_concurrent, of True]
  by (simp add: initial_def three_requests_def frame_of_def waiter_of_def descriptor_def
      unauthorized_def)

text \<open>
  C2. When the refresh call of an episode of \<open>N\<close> first-attempt 401 failures is fulfilled,
  the episode adds to the trace the refresh call, its fulfilment and one call
  \<^verbatim>\<open>SquareAxios(originalRequest)\<close> for each of the \<open>N\<close> requests, with the request's own
  descriptor and resolving the request's own promise: each request is replayed exactly
  once, and no promise is rejected with its original 401 error. Every descriptor now carries
  the marker. What the replay's exchange delivers is what the caller's promise gets: a
  response fulfils it, a cancellation resolves it with null, and an error that is no
  first-attempt 401 (in particular a second 401 on the marked descriptor) rejects it with
  that error.
\<close>

theorem replayed_once_after_refresh:
  assumes "idle s" and "qs \<noteq> []" and "concurrent_401s s qs"
  shows "trace (run (fails qs @ [Succeeds (RefreshCall (refreshCalls s)) v]) s) =
      trace s @
      [PostRefresh (RefreshCall (refreshCalls s)),
       Resolved (RefreshCall (refreshCalls s)) (Response v)] @
      map replay_of (tl qs) @ [replay_of (hd qs)] \<and>
    (\<forall>q \<in> set qs.
      count_list (trace (run (fails qs @ [Succeeds (RefreshCall (refreshCalls s)) v]) s)) (replay_of q) =
        Suc (count_list (trace s) (replay_of q)) \<and>
      count_list (trace (run (fails qs @ [Succeeds (RefreshCall (refreshCalls s)) v]) s)) (rejection_of q) =
        count_list (trace s) (rejection_of q) \<and>
      retried (run (fails qs @ [Succeeds (RefreshCall (refreshCalls s)) v]) s) (descriptor q) \<and>
      (\<forall>v'. trace (step (Succeeds (fst q) v')
                (run (fails qs @ [Succeeds (RefreshCall (refreshCalls s)) v]) s)) =
             trace (run (fails qs @ [Succeeds (RefreshCall (refreshCalls s)) v]) s) @
             [Resolved (fst q) (Response v')]) \<and>
      (\<forall>e'. is_cancel e' \<longrightarrow>
             trace (step (Fails (fst q) e')
                (run (fails qs @ [Succeeds (RefreshCall (refreshCalls s)) v]) s)) =
             trace (run (fails qs @ [Succeeds (RefreshCall (refreshCalls s)) v]) s) @
             [Resolved (fst q) Null]) \<and>
      (\<forall>e'. passes_through (run (fails qs @ [Succeeds (RefreshCall (refreshCalls s)) v]) s) e' \<longrightarrow>
             trace (step (Fails (fst q) e')
                (run (fails qs @ [Succeeds (RefreshCall (refreshCalls s)) v]) s)) =
             trace (run (fails qs @ [Succeeds (RefreshCall (refreshCalls s)) v]) s) @
             [Rejected (fst q) e']))"
proof -
  let ?r = "RefreshCall (refreshCalls s)"
  let ?final = "run (fails qs @ [Succeeds ?r v]) s"
  have final: "?final =
     s\<lparr>configs := mark_all (map descriptor qs) (configs s),
       isRefreshing := False,
       refreshCalls := Suc (refreshCalls s),
       suspended := [],
       refreshSubscribers := [],
       trace := trace s @ [PostRefresh ?r, Resolved ?r (Response v)] @
         map replay_of (tl qs) @ [replay_of (hd qs)]\<rparr>"
    using assms by (rule success_episode)
  have d: "distinct (map descriptor qs)"
    using assms(3) by (simp add: concurrent_401s_def)
  have tr: "trace ?final = trace s @ [PostRefresh ?r, Resolved ?r (Response v)] @
         map replay_of (tl qs) @ [replay_of (hd qs)]"
    by (simp add: final)
  have sus: "suspended ?final = []"
    by (simp add: final)
  have once: "count_list (trace ?final) (replay_of q) = Suc (count_list (trace s) (replay_of q))"
    if "q \<in> set qs" for q
    using replayed_once[OF d assms(2) that] by (simp add: tr replay_of_def)
  have never: "count_list (trace ?final) (rejection_of q) = count_list (trace s) (rejection_of q)"
    for q
    using rejection_not_replay[of "tl qs" q] by (simp add: tr replay_of_def rejection_of_def)
  have marked: "retried ?final (descriptor q)" if "q \<in> set qs" for q
    using that by (simp add: final retried_def retried_mark_all)
  have ok: "trace (step (Succeeds p v') ?final) = trace ?final @ [Resolved p (Response v')]"
    for p v'
    by (simp add: step_def run_microtasks_nil sus emit_def)
  have ko: "trace (step (Fails p e') ?final) = trace ?final @ [Rejected p e']"
    if "passes_through ?final e'" for p e'
    using that by (simp add: step_def interceptor_passes_through run_microtasks_nil sus emit_def)
  have nul: "trace (step (Fails p e') ?final) = trace ?final @ [Resolved p Null]"
    if "is_cancel e'" for p e'
    using that by (simp add: step_def responseErrorInterceptor_def run_microtasks_nil sus emit_def)
  show ?thesis
    using tr once never marked ok nul ko by blast
qed

text \<open>
  The three-request scenario: B, C and A are each sent again once; when the replay of C
  is answered, the promise of C is fulfilled with that response.
\<close>

theorem replayed_once_after_refresh_witness:
  "trace (run (fails three_requests @ [Succeeds (RefreshCall 0) 7]) (initial unmarked True)) =
     [PostRefresh (RefreshCall 0), Resolved (RefreshCall 0) (Response 7),
      Request (Caller 1) 1, Request (Caller 2) 2, Request (Caller 0) 0] \<and>
   count_list (trace (run (fails three_requests @ [Succeeds (RefreshCall 0) 7]) (initial unmarked True)))
     (Request (Caller 2) 2) = 1 \<and>
   count_list (trace (run (fails three_requests @ [Succeeds (RefreshCall 0) 7]) (initial unmarked True)))
     (Rejected (Caller 2) (unauthorized 2)) = 0 \<and>
   trace (step (Succeeds (Caller 2) 9)
      (run (fails three_requests @ [Succeeds (RefreshCall 0) 7]) (initial unmarked True))) =
     [PostRefresh (RefreshCall 0), Resolved (RefreshCall 0) (Response 7),
      Request (Caller 1) 1, Request (Caller 2) 2, Request (Caller 0) 0,
      Resolved (Caller 2) (Response 9)]"
  using replayed_once_after_refresh[OF idle_initial three_requests_not_Nil three_requests_concurrent,
      of True 7]
  by (simp add: initial_def three_requests_def replay_of_def rejection_of_def descriptor_def
      unauthorized_def)

text \<open>
  C3. The refresh call is made through \<^verbatim>\<open>SquareAxios\<close>, so its own failure is handled by
  \<^verbatim>\<open>responseErrorInterceptor\<close>. When the refresh endpoint answers 401, the error is a
  first-attempt 401 arriving while \<^verbatim>\<open>isRefreshing\<close> is true: lines 30 to 39 put the refresh
  call's own promise into \<^verbatim>\<open>refreshSubscribers\<close> and leave it pending. In the three-request
  scenario nothing is rejected: A stays suspended on the refresh call, B and C stay in the
  queue behind which the refresh call itself now waits, the flag stays up and the trace
  holds the refresh call only. By \<open>refresh_401_never_settles\<close> no later failure or response
  of another call changes this: A stays suspended, and B, C and the refresh call stay queued.
\<close>

theorem refresh_401_joins_the_queue:
  "trace (run (fails three_requests @ [Fails (RefreshCall 0) (unauthorized 3)]) (initial unmarked True)) =
     [PostRefresh (RefreshCall 0)] \<and>
   isRefreshing (run (fails three_requests @ [Fails (RefreshCall 0) (unauthorized 3)]) (initial unmarked True)) \<and>
   suspended (run (fails three_requests @ [Fails (RefreshCall 0) (unauthorized 3)]) (initial unmarked True)) =
     [\<lparr>f_promise = Caller 0, f_originalRequest = 0, f_awaits = RefreshCall 0\<rparr>] \<and>
   refreshSubscribers (run (fails three_requests @ [Fails (RefreshCall 0) (unauthorized 3)]) (initial unmarked True)) =
     [\<lparr>w_error = unauthorized 1, w_originalRequest = 1, w_promise = Caller 1\<rparr>,
      \<lparr>w_error = unauthorized 2, w_originalRequest = 2, w_promise = Caller 2\<rparr>,
      \<lparr>w_error = unauthorized 3, w_originalRequest = 3, w_promise = RefreshCall 0\<rparr>]"
  unfolding refresh_401_pending
  by (simp add: pending_def initial_def three_requests_def frame_of_def waiter_of_def
      descriptor_def unauthorized_def)

text \<open>
  C4. In every run from the loaded module, a descriptor is sent again at most once. A 401
  on a descriptor that carries the marker is rejected with that error: the state is
  unchanged but for this rejection, so no replay and no refresh call is made.
\<close>

theorem one_retry_at_most:
  "retries c (run evs (initial cfgs w)) \<le> 1 \<and>
   (\<not> is_cancel e \<and> status e = Some 401 \<and> config e = Some d \<and> retried s d \<longrightarrow>
      responseErrorInterceptor p e s = s\<lparr>trace := trace s @ [Rejected p e]\<rparr>)"
proof -
  have "one_shot (run evs (initial cfgs w))"
    using one_shot_initial by (rule one_shot_run)
  from one_shot_D[OF this, of c] have "retries c (run evs (initial cfgs w)) \<le> 1"
    by (simp split: if_splits)
  moreover have "responseErrorInterceptor p e s = s\<lparr>trace := trace s @ [Rejected p e]\<rparr>"
    if "\<not> is_cancel e" "status e = Some 401" "config e = Some d" "retried s d"
    using that by (simp add: responseErrorInterceptor_def emit_def)
  ultimately show ?thesis
    by blast
qed

text \<open>
  The three-request scenario, continued: the replay of A fails with 401 again. The promise
  of A is rejected with that error and nothing else happens.
\<close>

theorem one_retry_at_most_witness:
  "retries 0 (run (fails three_requests @ [Succeeds (RefreshCall 0) 7, Fails (Caller 0) (unauthorized 0)])
      (initial unmarked True)) \<le> 1 \<and>
   responseErrorInterceptor (Caller 0) (unauthorized 0) (initial (mark_all [0] unmarked) True) =
     (initial (mark_all [0] unmarked) True)\<lparr>trace := [Rejected (Caller 0) (unauthorized 0)]\<rparr> \<and>
   trace (run (fails three_requests @ [Succeeds (RefreshCall 0) 7, Fails (Caller 0) (unauthorized 0)])
      (initial unmarked True)) =
     [PostRefresh (RefreshCall 0), Resolved (RefreshCall 0) (Response 7),
      Request (Caller 1) 1, Request (Caller 2) 2, Request (Caller 0) 0,
      Rejected (Caller 0) (unauthorized 0)]"
proof -
  let ?final = "run (fails three_requests @ [Succeeds (RefreshCall 0) 7]) (initial unmarked True)"
  have final: "?final =
     (initial unmarked True)\<lparr>configs := mark_all [0, 1, 2] unmarked,
       isRefreshing := False, refreshCalls := 1, suspended := [], refreshSubscribers := [],
       trace := [PostRefresh (RefreshCall 0), Resolved (RefreshCall 0) (Response 7),
         Request (Caller 1) 1, Request (Caller 2) 2, Request (Caller 0) 0]\<rparr>"
    using success_episode[OF idle_initial three_requests_not_Nil three_requests_concurrent, of True 7]
    by (simp add: initial_def three_requests_def replay_of_def descriptor_def unauthorized_def)
  have "passes_through ?final (unauthorized 0)"
    by (simp add: final passes_through_def first_attempt_401_def unauthorized_def retried_def
        mark_all_def)
  then have "step (Fails (Caller 0) (unauthorized 0)) ?final =
      ?final\<lparr>trace := trace ?final @ [Rejected (Caller 0) (unauthorized 0)]\<rparr>"
    by (intro step_passes_through) (simp add: final)
  then have "trace (run (fails three_requests @ [Succeeds (RefreshCall 0) 7, Fails (Caller 0) (unauthorized 0)])
      (initial unmarked True)) =
     [PostRefresh (RefreshCall 0), Resolved (RefreshCall 0) (Response 7),
      Request (Caller 1) 1, Request (Caller 2) 2, Request (Caller 0) 0,
      Rejected (Caller 0) (unauthorized 0)]"
    using run_append[of "fails three_requests @ [Succeeds (RefreshCall 0) 7]"
        "[Fails (Caller 0) (unauthorized 0)]" "initial unmarked True"]
    by (simp add: run_Cons run_Nil final)
  with one_retry_at_most[of 0
      "fails three_requests @ [Succeeds (RefreshCall 0) 7, Fails (Caller 0) (unauthorized 0)]"
      unmarked True "unauthorized 0" 0 "initial (mark_all [0] unmarked) True" "Caller 0"]
  show ?thesis
    by (simp add: unauthorized_def retried_def initial_def mark_all_def)
qed

text \<open>
  C5, as amended. When the refresh call is fulfilled, line 48 runs the callbacks first, in
  the order in which they were enqueued, and line 50 sends the triggering request last:
  the replays are issued for the waiters in arrival order and then for the trigger.
\<close>

theorem replays_waiters_then_trigger:
  assumes "idle s" and "qs \<noteq> []" and "concurrent_401s s qs"
  shows "replays (trace (run (fails qs @ [Succeeds (RefreshCall (refreshCalls s)) v]) s)) =
     replays (trace s) @ map (\<lambda>q. (fst q, descriptor q)) (tl qs) @
     [(fst (hd qs), descriptor (hd qs))]"
  by (simp add: success_episode[OF assms] replays_append replays_replay_of replay_of_def)

text \<open>
  The three-request scenario: the replays are issued for B, C and then A.
\<close>

theorem replays_waiters_then_trigger_witness:
  "replays (trace (run (fails three_requests @ [Succeeds (RefreshCall 0) 7]) (initial unmarked True))) =
     [(Caller 1, 1), (Caller 2, 2), (Caller 0, 0)]"
  using replays_waiters_then_trigger[OF idle_initial three_requests_not_Nil three_requests_concurrent,
      of True 7]
  by (simp add: initial_def three_requests_def descriptor_def unauthorized_def)

text \<open>
  C5 as stated fails in the three-request scenario: the replays are not issued in the
  order A, B, C.
\<close>

theorem trigger_replayed_first_counterexample:
  "replays (trace (run (fails three_requests @ [Succeeds (RefreshCall 0) 7]) (initial unmarked True))) \<noteq>
     [(Caller 0, 0), (Caller 1, 1), (Caller 2, 2)]"
  using success_episode[OF idle_initial three_requests_not_Nil three_requests_concurrent, of True 7]
  by (simp add: replays_append replays_replay_of replay_of_def initial_def three_requests_def
      descriptor_def unauthorized_def)

text \<open>
  C6. A cancelled request is resolved with null on line 24, before anything else is
  looked at: whatever the state, the only change is this resolution. The flag, the queue,
  the store of descriptors (no marker is set), the suspended invocations and the count of
  refresh calls stay as they were, and nothing is rejected.
\<close>

theorem cancelled_resolves_null:
  assumes "is_cancel e"
  shows "responseErrorInterceptor p e s = s\<lparr>trace := trace s @ [Resolved p Null]\<rparr>"
  using assms by (simp add: responseErrorInterceptor_def emit_def)

text \<open>
  A cancellation while no refresh is in flight, and one while the refresh call of the
  three-request scenario is pending.
\<close>

theorem cancelled_resolves_null_witness:
  "responseErrorInterceptor (Caller 5) (cancelled 5) (initial unmarked True) =
     (initial unmarked True)\<lparr>trace := [Resolved (Caller 5) Null]\<rparr> \<and>
   responseErrorInterceptor (Caller 5) (cancelled 5) (pending (initial unmarked True) three_requests) =
     (pending (initial unmarked True) three_requests)
       \<lparr>trace := [PostRefresh (RefreshCall 0), Resolved (Caller 5) Null]\<rparr>"
  using cancelled_resolves_null[of "cancelled 5" "Caller 5" "initial unmarked True"]
    cancelled_resolves_null[of "cancelled 5" "Caller 5" "pending (initial unmarked True) three_requests"]
  by (simp add: cancelled_def initial_def pending_def)

text \<open>
  C7, as amended. When the refresh call of an episode is rejected (its error is neither a
  cancellation nor a first-attempt 401), the episode navigates to \<^verbatim>\<open>/signin\<close> exactly once
  if \<^verbatim>\<open>window\<close> is defined and not at all otherwise, whatever the number of requests. An
  episode whose refresh call is fulfilled does not navigate, and no invocation of the
  interceptor navigates before its \<^verbatim>\<open>await\<close>, whatever the error and the state.
\<close>

theorem navigation_on_refresh_rejection:
  assumes "idle s" and "qs \<noteq> []" and "concurrent_401s s qs"
    and "passes_through (run (fails qs) s) e"
  shows "navigations (trace (run (fails qs @ [Fails (RefreshCall (refreshCalls s)) e]) s)) =
      navigations (trace s) @ (if window_defined s then [''/signin''] else []) \<and>
    navigations (trace (run (fails qs @ [Succeeds (RefreshCall (refreshCalls s)) v]) s)) =
      navigations (trace s) \<and>
    (\<forall>p e' t. navigations (trace (responseErrorInterceptor p e' t)) = navigations (trace t))"
  by (simp add: success_episode[OF assms(1,2,3)] failure_episode[OF assms] navigations_append
      navigations_replay_of navigations_rejection_of navigations_interceptor replay_of_def)

text \<open>
  The three-request scenario with a refresh call answered by a 500: one navigation with a
  window, none without, and none when the refresh call succeeds.
\<close>

theorem navigation_on_refresh_rejection_witness:
  "navigations (trace (run (fails three_requests @ [Fails (RefreshCall 0) (server_error 3)])
      (initial unmarked True))) = [''/signin''] \<and>
   navigations (trace (run (fails three_requests @ [Fails (RefreshCall 0) (server_error 3)])
      (initial unmarked False))) = [] \<and>
   navigations (trace (run (fails three_requests @ [Succeeds (RefreshCall 0) 7])
      (initial unmarked True))) = []"
  using navigation_on_refresh_rejection[OF idle_initial three_requests_not_Nil
      three_requests_concurrent server_error_passes, of True 3 7]
    navigation_on_refresh_rejection[OF idle_initial three_requests_not_Nil
      three_requests_concurrent server_error_passes, of False 3 7]
  by (simp add: initial_def)

text \<open>
  C7 as stated fails where \<^verbatim>\<open>window\<close> is undefined (line 55): the refresh call fails and
  no navigation occurs.
\<close>

theorem no_navigation_without_window_counterexample:
  "navigations (trace (run (fails three_requests @ [Fails (RefreshCall 0) (server_error 3)])
      (initial unmarked False))) = []"
  using failure_episode[OF idle_initial three_requests_not_Nil three_requests_concurrent
      server_error_passes, of False 3]
  by (simp add: navigations_append navigations_rejection_of initial_def)

text \<open>
  C8. An error that is no cancellation and no first-attempt 401 (its status is not 401,
  or it has no descriptor, or its descriptor carries the marker) is rejected on line 63
  with the error object itself. The state is unchanged but for this rejection: no replay,
  no refresh call, no marker.
\<close>

theorem other_failures_rejected_unchanged:
  assumes "\<not> is_cancel e"
    and "status e \<noteq> Some 401 \<or> config e = None \<or> retried s (the (config e))"
  shows "responseErrorInterceptor p e s = s\<lparr>trace := trace s @ [Rejected p e]\<rparr>"
  using assms by (auto simp: responseErrorInterceptor_def emit_def)

text \<open>
  A 500, and a 401 on a marked descriptor.
\<close>

theorem other_failures_rejected_unchanged_witness:
  "responseErrorInterceptor (Caller 4) (server_error 4) (initial unmarked True) =
     (initial unmarked True)\<lparr>trace := [Rejected (Caller 4) (server_error 4)]\<rparr> \<and>
   responseErrorInterceptor (Caller 0) (unauthorized 0) (initial (mark_all [0] unmarked) True) =
     (initial (mark_all [0] unmarked) True)\<lparr>trace := [Rejected (Caller 0) (unauthorized 0)]\<rparr>"
  using other_failures_rejected_unchanged[of "server_error 4" "initial unmarked True" "Caller 4"]
    other_failures_rejected_unchanged[of "unauthorized 0" "initial (mark_all [0] unmarked) True"
      "Caller 0"]
  by (simp add: server_error_def unauthorized_def retried_def initial_def mark_all_def)

text \<open>
  C9. Whatever the network delivers after the module was loaded, at every point where
  control returns to the event loop (after a handler has run, and after the invocations it
  woke have run) a lowered flag means an empty queue. An invocation that resumes on a
  settled refresh call lowers the flag and empties the queue in the same turn.
\<close>

theorem waiters_only_while_refreshing:
  "(\<not> isRefreshing (run evs (initial cfgs w)) \<longrightarrow>
      refreshSubscribers (run evs (initial cfgs w)) = []) \<and>
   (\<forall>ev. \<not> isRefreshing (handle ev (run evs (initial cfgs w))) \<longrightarrow>
      refreshSubscribers (handle ev (run evs (initial cfgs w))) = []) \<and>
   (\<forall>f t. ready t f \<longrightarrow> \<not> isRefreshing (resume f t) \<and> refreshSubscribers (resume f t) = [])"
proof -
  have "coherent (run evs (initial cfgs w))"
    using coherent_initial by (rule coherent_run)
  moreover from this have "coherent (handle ev (run evs (initial cfgs w)))" for ev
    by (rule coherent_handle)
  ultimately show ?thesis
    using resume_clears by (auto simp: coherent_def)
qed

text \<open>
  After the successful episode of the three-request scenario the flag is down and the
  queue is empty.
\<close>

theorem waiters_only_while_refreshing_witness:
  "\<not> isRefreshing (run (fails three_requests @ [Succeeds (RefreshCall 0) 7]) (initial unmarked True)) \<and>
   refreshSubscribers (run (fails three_requests @ [Succeeds (RefreshCall 0) 7]) (initial unmarked True)) = []"
proof -
  have a: "\<not> isRefreshing (run (fails three_requests @ [Succeeds (RefreshCall 0) 7]) (initial unmarked True))"
    using success_episode[OF idle_initial three_requests_not_Nil three_requests_concurrent, of True 7]
    by (simp add: initial_def)
  with waiters_only_while_refreshing[of "fails three_requests @ [Succeeds (RefreshCall 0) 7]" unmarked True]
  have "refreshSubscribers (run (fails three_requests @ [Succeeds (RefreshCall 0) 7]) (initial unmarked True)) = []"
    by blast
  with a show ?thesis
    by simp
qed

text \<open>
  C10. A 401 whose error has no descriptor fails the test of line 27 and is rejected on
  line 63 with the error object itself; the state is unchanged but for this rejection.
\<close>

theorem missing_descriptor_rejected:
  assumes "\<not> is_cancel e" and "status e = Some 401" and "config e = None"
  shows "responseErrorInterceptor p e s = s\<lparr>trace := trace s @ [Rejected p e]\<rparr>"
  using assms by (simp add: responseErrorInterceptor_def emit_def)

text \<open>
  Such an error while idle, and while the refresh call of the three-request scenario is
  pending.
\<close>

theorem missing_descriptor_rejected_witness:
  "responseErrorInterceptor (Caller 6) orphan_unauthorized (initial unmarked True) =
     (initial unmarked True)\<lparr>trace := [Rejected (Caller 6) orphan_unauthorized]\<rparr> \<and>
   responseErrorInterceptor (Caller 6) orphan_unauthorized (pending (initial unmarked True) three_requests) =
     (pending (initial unmarked True) three_requests)
       \<lparr>trace := [PostRefresh (RefreshCall 0), Rejected (Caller 6) orphan_unauthorized]\<rparr>"
  using missing_descriptor_rejected[of orphan_unauthorized "Caller 6" "initial unmarked True"]
    missing_descriptor_rejected[of orphan_unauthorized "Caller 6"
      "pending (initial unmarked True) three_requests"]
  by (simp add: orphan_unauthorized_def initial_def pending_def)

end
